theory Spec2Isabelle
  imports Main
begin

section \<open>Status enumeration (framework/utils/enums.py, framework/utils/utils.py)\<close>

datatype FunctionStatus =
  PENDING | INVOKED | NOT_INVOKED | RUNNING | COMPLETED | FAILED | SKIPPED | TIMEOUT

definition pending :: "FunctionStatus \<Rightarrow> bool" where
  "pending status = (status = PENDING)"

definition invoked :: "FunctionStatus \<Rightarrow> bool" where
  "invoked status = (status = INVOKED)"

definition not_invoked :: "FunctionStatus \<Rightarrow> bool" where
  "not_invoked status = (status = NOT_INVOKED)"

definition running :: "FunctionStatus \<Rightarrow> bool" where
  "running status = (status = RUNNING)"

definition completed :: "FunctionStatus \<Rightarrow> bool" where
  "completed status = (status = COMPLETED)"

definition failed :: "FunctionStatus \<Rightarrow> bool" where
  "failed status = (status = FAILED)"

definition skipped :: "FunctionStatus \<Rightarrow> bool" where
  "skipped status = (status = SKIPPED)"

definition timed_out :: "FunctionStatus \<Rightarrow> bool" where
  "timed_out status = (status = TIMEOUT)"

definition has_run :: "FunctionStatus \<Rightarrow> bool" where
  "has_run status = (\<not> (pending status \<or> invoked status \<or> not_invoked status))"

definition has_completed :: "FunctionStatus \<Rightarrow> bool" where
  "has_completed status = (completed status \<or> not_invoked status)"

definition has_final_state :: "FunctionStatus \<Rightarrow> bool" where
  "has_final_state status =
     (completed status \<or> not_invoked status \<or> failed status
      \<or> timed_out status \<or> skipped status)"

section \<open>Strings\<close>

text \<open>
  Python's \<open>str\<close> is modelled by \<open>string\<close>: the texts covered are those whose code
  points lie below 256. On that range the class \<open>\d\<close> of a \<open>str\<close> pattern is exactly
  \<open>0-9\<close>.

  \<open>s.replace(old, new)\<close> with a one-character \<open>old\<close> replaces every occurrence.
\<close>

definition replace_char :: "char \<Rightarrow> string \<Rightarrow> string \<Rightarrow> string" where
  "replace_char old new s = concat (map (\<lambda>c. if c = old then new else [c]) s)"

text \<open>\<open>get_s3_path\<close>: \<open>key.replace("\\", "/")\<close>; \<open>CHR 0x5C\<close> is the backslash.\<close>

definition get_s3_path :: "string \<Rightarrow> string" where
  "get_s3_path key = replace_char (CHR 0x5C) ''/'' key"

section \<open>The fragment of Python's \<open>re\<close> that the tracker's patterns use\<close>

text \<open>
  The three patterns of the tracker are sequences of one-character atoms (a literal, a
  class, the dot), each taken once or under \<open>+\<close> (greedy) or \<open>+?\<close> (lazy). An atom is
  the predicate of the characters it accepts.
\<close>

datatype quant = Once | Plus_Greedy | Plus_Lazy

type_synonym atom = "char \<Rightarrow> bool"
type_synonym regex = "(atom \<times> quant) list"

definition in_range :: "char \<Rightarrow> char \<Rightarrow> atom" where
  "in_range lo hi c = ((of_char lo :: nat) \<le> of_char c \<and> (of_char c :: nat) \<le> of_char hi)"

definition lit :: "char \<Rightarrow> atom \<times> quant" where
  "lit c = ((\<lambda>x. x = c), Once)"

definition lits :: "string \<Rightarrow> regex" where
  "lits s = map lit s"

text \<open>\<open>.\<close> without the DOTALL flag: any character but the newline.\<close>

definition dot :: atom where
  "dot c = (c \<noteq> CHR 0x0A)"

text \<open>
  \<open>re_match r s\<close> is the backtracking matcher anchored at the start of \<open>s\<close>: the rest of
  \<open>s\<close> after the first match in the engine's priority order (greedy: more repetitions
  first; lazy: fewer first), \<open>None\<close> when nothing matches.
\<close>

fun re_match :: "regex \<Rightarrow> string \<Rightarrow> string option" where
  "re_match [] s = Some s"
| "re_match ((p, q) # r) [] = None"
| "re_match ((p, Once) # r) (c # cs) = (if p c then re_match r cs else None)"
| "re_match ((p, Plus_Greedy) # r) (c # cs) =
     (if p c then
        (case re_match ((p, Plus_Greedy) # r) cs of
           Some rest \<Rightarrow> Some rest
         | None \<Rightarrow> re_match r cs)
      else None)"
| "re_match ((p, Plus_Lazy) # r) (c # cs) =
     (if p c then
        (case re_match r cs of
           Some rest \<Rightarrow> Some rest
         | None \<Rightarrow> re_match ((p, Plus_Lazy) # r) cs)
      else None)"

text \<open>\<open>pattern.search(s) is not None\<close>: a match starting at some position of \<open>s\<close>.\<close>

fun re_search :: "regex \<Rightarrow> string \<Rightarrow> bool" where
  "re_search r [] = (re_match r [] \<noteq> None)"
| "re_search r (c # cs) = (re_match r (c # cs) \<noteq> None \<or> re_search r cs)"

text \<open>
  \<open>pattern.findall(s)\<close> for a pattern \<open>(?<=lb)body\<close>: the non-overlapping matches of
  \<open>body\<close>, scanning from the left, at the positions that the text matching \<open>lb\<close>
  precedes. \<open>lb\<close> has only \<open>Once\<close> atoms (Python requires a fixed width), so it looks
  at the last \<open>length lb\<close> characters before the position. After a match the scan goes
  on at its end; an empty match is reported and the scan moves one character on.
\<close>

definition lookbehind :: "regex \<Rightarrow> string \<Rightarrow> bool" where
  "lookbehind lb seen =
     (length lb \<le> length seen
      \<and> re_match lb (drop (length seen - length lb) seen) = Some [])"

function re_findall_from :: "regex \<Rightarrow> regex \<Rightarrow> string \<Rightarrow> string \<Rightarrow> string list" where
  "re_findall_from lb body seen s =
     (case (if lookbehind lb seen then re_match body s else None) of
        Some rest \<Rightarrow>
          (if length rest < length s then
             take (length s - length rest) s
               # re_findall_from lb body (seen @ take (length s - length rest) s) rest
           else
             (case s of
                [] \<Rightarrow> [Nil]
              | c # cs \<Rightarrow> [] # re_findall_from lb body (seen @ [c]) cs))
      | None \<Rightarrow>
          (case s of
             [] \<Rightarrow> []
           | c # cs \<Rightarrow> re_findall_from lb body (seen @ [c]) cs))"
  by pat_completeness auto
termination
  by (relation "measure (\<lambda>(lb, body, seen, s). length s)") auto

definition re_findall :: "regex \<Rightarrow> regex \<Rightarrow> string \<Rightarrow> string list" where
  "re_findall lb body s = re_findall_from lb body [] s"

text \<open>
  A pattern given as text (the tracker builds one from the workflow name): the parser
  covers ordinary characters and the dot. Any other special character puts the pattern
  outside the fragment (\<open>None\<close>).
\<close>

definition special :: "char \<Rightarrow> bool" where
  "special c = (c = CHR 0x5C \<or> c \<in> set ''^$*+?{}[]()|'')"

fun re_parse :: "string \<Rightarrow> regex option" where
  "re_parse [] = Some []"
| "re_parse (c # cs) =
     (if c = CHR ''.'' then map_option (Cons (dot, Once)) (re_parse cs)
      else if special c then None
      else map_option (Cons (lit c)) (re_parse cs))"

section \<open>Storage client (framework/s3_client.py)\<close>

text \<open>
  Exceptions that leave the tracker: \<open>S3ClientError\<close> (carrying the error code of the
  \<open>ClientError\<close> it wraps), and \<open>Foreign\<close> for an exception of a library that the code
  does not catch (a botocore error that is no \<open>ClientError\<close>, \<open>re.error\<close>).
\<close>

datatype exn = S3ClientError string | Foreign string

text \<open>
  What \<open>self._client.head_object(Bucket=..., Key=key)\<close> does: it returns, raises
  \<open>ClientError\<close> with \<open>e.response["Error"]["Code"]\<close>, or raises something else.
\<close>

datatype head_outcome = Head_Ok | ClientError string | Head_Raises string

definition object_exists :: "(string \<Rightarrow> head_outcome) \<Rightarrow> string \<Rightarrow> exn + bool" where
  "object_exists head_object key =
     (case head_object key of
        ClientError code \<Rightarrow>
          (if code = ''404'' then Inr False else Inl (S3ClientError code))
      | Head_Raises x \<Rightarrow> Inl (Foreign x)
      | Head_Ok \<Rightarrow> Inr True)"

section \<open>Status tracker (framework/faasr_function.py)\<close>

text \<open>
  What the tracker's collaborators answer while one event is handled: the log text held
  by the log source (\<open>self._logger.logs_content\<close>), the outcome of the store's head
  request for a key, and \<open>re.sub(pattern, "", token)\<close>
  of Python's library for a pattern outside the fragment above (a parameter: the result
  or the exception).
\<close>

record env =
  logs_content :: string
  head_object :: "string \<Rightarrow> head_outcome"
  re_sub_other :: "string \<Rightarrow> string \<Rightarrow> exn + string"

text \<open>
  Modelled from the spec: the log source (framework/faasr_function_logger.py) is not
  among the sources. It delivers three kinds of events, named here as in the \<open>match\<close>
  of \<open>_on_log_event\<close>.
\<close>

datatype LogEvent = LOG_CREATED | LOG_UPDATED | LOG_COMPLETE

text \<open>
  The tracker object. \<open>priv_status\<close> and \<open>priv_invocations\<close> are the attributes
  \<open>_status\<close> and \<open>_invocations\<close> (\<open>None\<close> is Python's \<open>None\<close>); \<open>logger_stopped\<close> records
  that \<open>self._logger.stop()\<close> has been called on the owned log source. The lock is not
  modelled: every operation below runs as one step.
\<close>

record FaaSrFunction =
  function_name :: string
  workflow_name :: string
  invocation_folder :: string
  stream_logs :: bool
  interval_seconds :: int
  priv_status :: FunctionStatus
  priv_invocations :: "string set option"
  logger_stopped :: bool

definition FaaSrFunction_init ::
  "string \<Rightarrow> string \<Rightarrow> string \<Rightarrow> bool \<Rightarrow> int \<Rightarrow> FaaSrFunction" where
  "FaaSrFunction_init fname wname folder stream interval =
     \<lparr>function_name = fname, workflow_name = wname, invocation_folder = folder,
      stream_logs = stream, interval_seconds = interval,
      priv_status = PENDING, priv_invocations = None, logger_stopped = False\<rparr>"

definition status :: "FaaSrFunction \<Rightarrow> FunctionStatus" where
  "status self = priv_status self"

definition invocations :: "FaaSrFunction \<Rightarrow> string set option" where
  "invocations self =
     (case priv_invocations self of None \<Rightarrow> None | Some s \<Rightarrow> Some s)"

definition done_key :: "FaaSrFunction \<Rightarrow> string" where
  "done_key self =
     (let s3_function_name =
            replace_char (CHR '')'') [] (replace_char (CHR ''('') ''.'' (function_name self))
      in get_s3_path
           (invocation_folder self @ ''/function_completions/'' @ s3_function_name @ ''.done''))"

definition set_status :: "FunctionStatus \<Rightarrow> FaaSrFunction \<Rightarrow> FaaSrFunction" where
  "set_status st self = self\<lparr>priv_status := st\<rparr>"

text \<open>
  Modelled from the spec: \<open>stop()\<close> of the log source, which is not among the sources.
  It is idempotent; the tracker's model records that it has been called.
\<close>

definition logger_stop :: "FaaSrFunction \<Rightarrow> FaaSrFunction" where
  "logger_stop self = self\<lparr>logger_stopped := True\<rparr>"

text \<open>\<open>failed_regex\<close>: \<open>\[[\d\.]+?\] \[ERROR\]\<close>.\<close>

definition digit :: atom where
  "digit c = in_range (CHR ''0'') (CHR ''9'') c"

definition digit_or_dot :: atom where
  "digit_or_dot c = (digit c \<or> c = CHR ''.'')"

definition failed_regex :: regex where
  "failed_regex = lits ''['' @ [(digit_or_dot, Plus_Lazy)] @ lits ''] [ERROR]''"

text \<open>
  \<open>invoked_regex\<close>:
  \<open>(?<=\[scheduler.py\] GitHub Action: Successfully invoked: )[a-zA-Z][a-zA-Z0-9\-]+\<close>.
  The dot of \<open>scheduler.py\<close> is not escaped in the source.
\<close>

definition letter :: atom where
  "letter c = (in_range (CHR ''a'') (CHR ''z'') c \<or> in_range (CHR ''A'') (CHR ''Z'') c)"

definition name_char :: atom where
  "name_char c =
     (in_range (CHR ''a'') (CHR ''z'') c \<or> in_range (CHR ''A'') (CHR ''Z'') c
      \<or> in_range (CHR ''0'') (CHR ''9'') c \<or> c = CHR ''-'')"

definition invoked_lookbehind :: regex where
  "invoked_lookbehind =
     lits ''[scheduler'' @ [(dot, Once)] @ lits ''py] GitHub Action: Successfully invoked: ''"

definition invoked_body :: regex where
  "invoked_body = [(letter, Once), (name_char, Plus_Greedy)]"

definition check_for_failure :: "env \<Rightarrow> FaaSrFunction \<Rightarrow> bool" where
  "check_for_failure e self = re_search failed_regex (logs_content e)"

definition check_for_completion :: "env \<Rightarrow> FaaSrFunction \<Rightarrow> exn + bool" where
  "check_for_completion e self = object_exists (head_object e) (done_key self)"

text \<open>
  \<open>re.sub(r"^" + self.workflow_name + "-", "", invocation)\<close>: the name goes into the
  pattern as it is. Without the MULTILINE flag \<open>^\<close> matches at the start of the token
  only, so at most one match is replaced.
\<close>

definition re_sub_prefix :: "env \<Rightarrow> string \<Rightarrow> string \<Rightarrow> exn + string" where
  "re_sub_prefix e wname invocation =
     (case re_parse (wname @ ''-'') of
        Some r \<Rightarrow>
          Inr (case re_match r invocation of Some rest \<Rightarrow> rest | None \<Rightarrow> invocation)
      | None \<Rightarrow> re_sub_other e (''^'' @ wname @ ''-'') invocation)"

text \<open>The generator inside \<open>set(...)\<close>: the first exception ends it.\<close>

fun sub_all :: "(string \<Rightarrow> exn + string) \<Rightarrow> string list \<Rightarrow> exn + string list" where
  "sub_all f [] = Inr []"
| "sub_all f (x # xs) =
     (case f x of
        Inl err \<Rightarrow> Inl err
      | Inr y \<Rightarrow> (case sub_all f xs of Inl err \<Rightarrow> Inl err | Inr ys \<Rightarrow> Inr (y # ys)))"

text \<open>
  A method that can raise returns the exception (if any) and the object as the method
  left it.
\<close>

definition extract_invocations :: "env \<Rightarrow> FaaSrFunction \<Rightarrow> exn option \<times> FaaSrFunction" where
  "extract_invocations e self =
     (case sub_all (re_sub_prefix e (workflow_name self))
             (re_findall invoked_lookbehind invoked_body (logs_content e)) of
        Inl err \<Rightarrow> (Some err, self)
      | Inr xs \<Rightarrow> (None, self\<lparr>priv_invocations := Some (set xs)\<rparr>))"

definition handle_log_created :: "env \<Rightarrow> FaaSrFunction \<Rightarrow> exn option \<times> FaaSrFunction" where
  "handle_log_created e self = (None, set_status RUNNING self)"

definition handle_log_updated :: "env \<Rightarrow> FaaSrFunction \<Rightarrow> exn option \<times> FaaSrFunction" where
  "handle_log_updated e self =
     (if check_for_failure e self then (None, logger_stop (set_status FAILED self))
      else
        (case check_for_completion e self of
           Inl err \<Rightarrow> (Some err, self)
         | Inr True \<Rightarrow> (None, logger_stop (set_status COMPLETED self))
         | Inr False \<Rightarrow> (None, self)))"

definition handle_log_complete :: "env \<Rightarrow> FaaSrFunction \<Rightarrow> exn option \<times> FaaSrFunction" where
  "handle_log_complete e self =
     (case extract_invocations e self of
        (Some err, self1) \<Rightarrow> (Some err, self1)
      | (None, self1) \<Rightarrow>
          (if check_for_failure e self1 then (None, set_status FAILED self1)
           else
             (case check_for_completion e self1 of
                Inl err \<Rightarrow> (Some err, self1)
              | Inr True \<Rightarrow> (None, set_status COMPLETED self1)
              | Inr False \<Rightarrow> (None, self1))))"

fun on_log_event :: "LogEvent \<Rightarrow> env \<Rightarrow> FaaSrFunction \<Rightarrow> exn option \<times> FaaSrFunction" where
  "on_log_event LOG_CREATED e self = handle_log_created e self"
| "on_log_event LOG_UPDATED e self = handle_log_updated e self"
| "on_log_event LOG_COMPLETE e self = handle_log_complete e self"

text \<open>
  The handlers applied to a sequence of events one after the other, each event with what
  the collaborators answer while it is handled. An exception goes back to the caller; the
  tracker stays as the handler left it. \<open>run_events\<close> does not ask whether the log
  source has been stopped: it covers every sequence that the log source can deliver, and
  more.
\<close>

fun run_events :: "(LogEvent \<times> env) list \<Rightarrow> FaaSrFunction \<Rightarrow> FaaSrFunction" where
  "run_events [] self = self"
| "run_events ((ev, e) # evs) self = run_events evs (snd (on_log_event ev e self))"




subsection \<open>Sample inputs\<close>

text \<open>
  A log line of the scheduler that reports an invocation, and the collaborators' answers
  for a given log text and a given outcome of the head request. The sample \<open>re.sub\<close>
  outside the fragment raises \<open>re.error\<close>, as Python does for the pattern \<open>^w(-\<close>.
\<close>

definition invoked_line :: "string \<Rightarrow> string" where
  "invoked_line tok =
     ''[scheduler.py] GitHub Action: Successfully invoked: '' @ tok @ [CHR 0x0A]"

definition env_of :: "string \<Rightarrow> head_outcome \<Rightarrow> env" where
  "env_of logs h =
     \<lparr>logs_content = logs, head_object = (\<lambda>k. h),
      re_sub_other = (\<lambda>p t. Inl (Foreign ''re.error''))\<rparr>"

section \<open>Theorems\<close>

text \<open>
  C9. The terminal-state predicate \<open>has_final_state\<close> is true for exactly the five
  statuses COMPLETED, NOT_INVOKED, FAILED, TIMEOUT and SKIPPED, and false for PENDING,
  INVOKED and RUNNING.
\<close>

theorem has_final_state_partition:
  "(has_final_state s \<longleftrightarrow> s \<in> {COMPLETED, NOT_INVOKED, FAILED, TIMEOUT, SKIPPED})
   \<and> (\<not> has_final_state s \<longleftrightarrow> s \<in> {PENDING, INVOKED, RUNNING})"
  by (cases s)
    (simp_all add: has_final_state_def completed_def not_invoked_def failed_def
      timed_out_def skipped_def)

subsection \<open>Marker key\<close>

lemma replace_char_append:
  "replace_char old new (xs @ ys) = replace_char old new xs @ replace_char old new ys"
  by (simp add: replace_char_def)

lemma replace_char_absent: "old \<notin> set s \<Longrightarrow> replace_char old new s = s"
  by (induction s) (auto simp: replace_char_def)

lemma replace_char_removes: "old \<notin> set new \<Longrightarrow> old \<notin> set (replace_char old new s)"
  by (induction s) (auto simp: replace_char_def)

lemma replace_char_keeps:
  "c \<notin> set s \<Longrightarrow> c \<notin> set new \<Longrightarrow> c \<notin> set (replace_char old new s)"
  by (induction s) (auto simp: replace_char_def)

lemma get_s3_path_append: "get_s3_path (xs @ ys) = get_s3_path xs @ get_s3_path ys"
  by (simp add: get_s3_path_def replace_char_append)

lemma get_s3_path_map:
  "get_s3_path s = map (\<lambda>c. if c = CHR 0x5C then CHR ''/'' else c) s"
  by (induction s) (auto simp: get_s3_path_def replace_char_def)

lemma replace_char_Nil: "replace_char old new [] = []"
  by (simp add: replace_char_def)

lemma replace_char_Cons:
  "replace_char old new (c # cs) = (if c = old then new else [c]) @ replace_char old new cs"
  by (simp add: replace_char_def)

lemma s3_function_name_plain:
  assumes "CHR ''('' \<notin> set name" "CHR '')'' \<notin> set name"
  shows "replace_char (CHR '')'') [] (replace_char (CHR ''('') ''.'' name) = name"
  using assms by (simp add: replace_char_absent)

lemma s3_function_name_ranked:
  assumes "CHR ''('' \<notin> set base" "CHR '')'' \<notin> set base"
    and "CHR ''('' \<notin> set rank" "CHR '')'' \<notin> set rank"
  shows "replace_char (CHR '')'') [] (replace_char (CHR ''('') ''.'' (base @ ''('' @ rank @ '')''))
         = base @ ''.'' @ rank"
  using assms
  by (simp add: replace_char_append replace_char_Cons replace_char_Nil replace_char_absent)

text \<open>
  C2. The marker key is a function of the function name and the run folder only. For a
  name \<open>base(rank)\<close> it is \<open><run-folder>/function_completions/<base>.<rank>.done\<close>,
  for a name without parentheses \<open><run-folder>/function_completions/<name>.done\<close>,
  in both cases with every backslash turned into a forward slash, so that no backslash
  is left in the key.
\<close>

theorem done_key_form:
  "(function_name self = base @ ''('' @ rank @ '')''
      \<and> CHR ''('' \<notin> set base \<and> CHR '')'' \<notin> set base
      \<and> CHR ''('' \<notin> set rank \<and> CHR '')'' \<notin> set rank
    \<longrightarrow> done_key self =
          get_s3_path (invocation_folder self) @ ''/function_completions/''
            @ get_s3_path base @ ''.'' @ get_s3_path rank @ ''.done'')
   \<and> (CHR ''('' \<notin> set (function_name self) \<and> CHR '')'' \<notin> set (function_name self)
    \<longrightarrow> done_key self =
          get_s3_path (invocation_folder self) @ ''/function_completions/''
            @ get_s3_path (function_name self) @ ''.done'')
   \<and> get_s3_path s = map (\<lambda>c. if c = CHR 0x5C then CHR ''/'' else c) s
   \<and> CHR 0x5C \<notin> set (done_key self)
   \<and> (function_name self = function_name other
        \<and> invocation_folder self = invocation_folder other
    \<longrightarrow> done_key self = done_key other)"
proof -
  have ranked: "done_key self =
          get_s3_path (invocation_folder self) @ ''/function_completions/''
            @ get_s3_path base @ ''.'' @ get_s3_path rank @ ''.done''"
    if "function_name self = base @ ''('' @ rank @ '')''"
      "CHR ''('' \<notin> set base" "CHR '')'' \<notin> set base"
      "CHR ''('' \<notin> set rank" "CHR '')'' \<notin> set rank"
  proof -
    from that have "replace_char (CHR '')'') [] (replace_char (CHR ''('') ''.'' (function_name self))
        = base @ ''.'' @ rank"
      using s3_function_name_ranked [of base rank] by simp
    then show ?thesis
      unfolding done_key_def Let_def by (simp add: get_s3_path_map)
  qed
  have plain: "done_key self =
          get_s3_path (invocation_folder self) @ ''/function_completions/''
            @ get_s3_path (function_name self) @ ''.done''"
    if "CHR ''('' \<notin> set (function_name self)" "CHR '')'' \<notin> set (function_name self)"
  proof -
    from that have "replace_char (CHR '')'') [] (replace_char (CHR ''('') ''.'' (function_name self))
        = function_name self"
      by (rule s3_function_name_plain)
    then show ?thesis
      unfolding done_key_def Let_def by (simp add: get_s3_path_map)
  qed
  have nobs: "CHR 0x5C \<notin> set (done_key self)"
    unfolding done_key_def Let_def get_s3_path_def by (rule replace_char_removes) simp
  have same: "done_key self = done_key other"
    if "function_name self = function_name other"
      "invocation_folder self = invocation_folder other"
    using that by (simp add: done_key_def)
  from ranked plain nobs same get_s3_path_map show ?thesis by blast
qed

theorem done_key_form_witness:
  "done_key (FaaSrFunction_init ''f(2)'' ''wf'' ''run1'' False 3)
     = ''run1/function_completions/f.2.done''
   \<and> done_key (FaaSrFunction_init ''f'' ''wf'' ''run1'' False 3)
     = ''run1/function_completions/f.done''
   \<and> done_key (FaaSrFunction_init ''f(2)'' ''wf'' ''run1'' False 3)
     = done_key (set_status RUNNING (FaaSrFunction_init ''f(2)'' ''other'' ''run1'' True 5))"
proof -
  have g: "get_s3_path ''run1'' = ''run1''" "get_s3_path ''f'' = ''f''" "get_s3_path ''2'' = ''2''"
    by (simp_all add: get_s3_path_def replace_char_def)
  have a: "done_key (FaaSrFunction_init ''f(2)'' ''wf'' ''run1'' False 3)
      = ''run1/function_completions/f.2.done''"
    using done_key_form [of "FaaSrFunction_init ''f(2)'' ''wf'' ''run1'' False 3" "''f''" "''2''"] g
    by (simp add: FaaSrFunction_init_def)
  have b: "done_key (FaaSrFunction_init ''f'' ''wf'' ''run1'' False 3)
      = ''run1/function_completions/f.done''"
    using done_key_form [of "FaaSrFunction_init ''f'' ''wf'' ''run1'' False 3"] g
    by (simp add: FaaSrFunction_init_def)
  have c: "done_key (FaaSrFunction_init ''f(2)'' ''wf'' ''run1'' False 3)
      = done_key (set_status RUNNING (FaaSrFunction_init ''f(2)'' ''other'' ''run1'' True 5))"
    using done_key_form [where self = "FaaSrFunction_init ''f(2)'' ''wf'' ''run1'' False 3"
        and other = "set_status RUNNING (FaaSrFunction_init ''f(2)'' ''other'' ''run1'' True 5)"]
    by (simp add: FaaSrFunction_init_def set_status_def)
  from a b c show ?thesis by blast
qed

subsection \<open>Failure check\<close>

lemma re_match_lits:
  "re_match (lits l @ r) s = Some rest \<longleftrightarrow> (\<exists>s'. s = l @ s' \<and> re_match r s' = Some rest)"
proof (induction l arbitrary: s)
  case Nil
  then show ?case by (simp add: lits_def)
next
  case (Cons a l)
  show ?case
  proof (cases s)
    case Nil
    then show ?thesis by (simp add: lits_def lit_def)
  next
    case (Cons c cs)
    with Cons.IH [of cs] show ?thesis
      by (auto simp: lits_def lit_def)
  qed
qed

lemma re_match_lazy:
  "(\<exists>rest. re_match ((p, Plus_Lazy) # r) s = Some rest)
   \<longleftrightarrow> (\<exists>ts s' rest. s = ts @ s' \<and> ts \<noteq> [] \<and> list_all p ts \<and> re_match r s' = Some rest)"
proof (induction s)
  case Nil
  then show ?case by simp
next
  case (Cons c cs)
  show ?case
  proof
    assume "\<exists>rest. re_match ((p, Plus_Lazy) # r) (c # cs) = Some rest"
    then obtain rest where m: "re_match ((p, Plus_Lazy) # r) (c # cs) = Some rest" ..
    then have pc: "p c" by (simp split: if_splits)
    show "\<exists>ts s' rest. c # cs = ts @ s' \<and> ts \<noteq> [] \<and> list_all p ts \<and> re_match r s' = Some rest"
    proof (cases "re_match r cs")
      case (Some x)
      with pc have "c # cs = [c] @ cs \<and> [c] \<noteq> [] \<and> list_all p [c] \<and> re_match r cs = Some x"
        by simp
      then show ?thesis by blast
    next
      case None
      with m pc have "re_match ((p, Plus_Lazy) # r) cs = Some rest" by simp
      with Cons.IH obtain ts s' rest' where
        "cs = ts @ s'" "ts \<noteq> []" "list_all p ts" "re_match r s' = Some rest'" by blast
      with pc have "c # cs = (c # ts) @ s' \<and> c # ts \<noteq> [] \<and> list_all p (c # ts)
          \<and> re_match r s' = Some rest'" by simp
      then show ?thesis by blast
    qed
  next
    assume "\<exists>ts s' rest. c # cs = ts @ s' \<and> ts \<noteq> [] \<and> list_all p ts \<and> re_match r s' = Some rest"
    then obtain ts s' rest where
      d: "c # cs = ts @ s'" "ts \<noteq> []" "list_all p ts" "re_match r s' = Some rest" by blast
    then obtain ts' where ts: "ts = c # ts'" by (cases ts) auto
    with d have pc: "p c" and cs: "cs = ts' @ s'" and all: "list_all p ts'" by auto
    show "\<exists>rest. re_match ((p, Plus_Lazy) # r) (c # cs) = Some rest"
    proof (cases "re_match r cs")
      case (Some x)
      with pc show ?thesis by simp
    next
      case None
      with cs d(4) have "ts' \<noteq> []" by auto
      with cs all d(4) Cons.IH obtain rest' where
        "re_match ((p, Plus_Lazy) # r) cs = Some rest'" by blast
      with None pc show ?thesis by simp
    qed
  qed
qed

lemma re_search_iff:
  "re_search r s \<longleftrightarrow> (\<exists>pre suf rest. s = pre @ suf \<and> re_match r suf = Some rest)"
proof (induction s)
  case Nil
  then show ?case by auto
next
  case (Cons c cs)
  show ?case
  proof
    assume "re_search r (c # cs)"
    then consider (here) rest where "re_match r (c # cs) = Some rest" | (later) "re_search r cs"
      by auto
    then show "\<exists>pre suf rest. c # cs = pre @ suf \<and> re_match r suf = Some rest"
    proof cases
      case here
      then have "c # cs = [] @ (c # cs) \<and> re_match r (c # cs) = Some rest" by simp
      then show ?thesis by blast
    next
      case later
      with Cons.IH obtain pre suf rest where "cs = pre @ suf" "re_match r suf = Some rest"
        by blast
      then have "c # cs = (c # pre) @ suf \<and> re_match r suf = Some rest" by simp
      then show ?thesis by blast
    qed
  next
    assume "\<exists>pre suf rest. c # cs = pre @ suf \<and> re_match r suf = Some rest"
    then obtain pre suf rest where d: "c # cs = pre @ suf" "re_match r suf = Some rest" by blast
    show "re_search r (c # cs)"
    proof (cases pre)
      case Nil
      with d have "re_match r (c # cs) = Some rest" by simp
      then show ?thesis by simp
    next
      case (Cons a pre')
      with d have "cs = pre' @ suf" by simp
      with d(2) Cons.IH have "re_search r cs" by blast
      then show ?thesis by simp
    qed
  qed
qed

lemma failed_regex_search:
  "re_search failed_regex s \<longleftrightarrow>
     (\<exists>pre ts post. s = pre @ ''['' @ ts @ ''] [ERROR]'' @ post \<and> ts \<noteq> []
        \<and> list_all digit_or_dot ts)"
proof
  assume "re_search failed_regex s"
  then obtain pre suf rest where s: "s = pre @ suf" and m: "re_match failed_regex suf = Some rest"
    unfolding re_search_iff by blast
  from m obtain s1 where s1: "suf = ''['' @ s1"
    and m1: "re_match ((digit_or_dot, Plus_Lazy) # lits ''] [ERROR]'') s1 = Some rest"
    unfolding failed_regex_def re_match_lits by auto
  from m1 re_match_lazy [of digit_or_dot "lits ''] [ERROR]''" s1]
  obtain ts s2 rest2 where s2: "s1 = ts @ s2" "ts \<noteq> []" "list_all digit_or_dot ts"
    and m2: "re_match (lits ''] [ERROR]'') s2 = Some rest2" by blast
  from m2 re_match_lits [of "''] [ERROR]''" "[]" s2 rest2]
  obtain post where "s2 = ''] [ERROR]'' @ post" by auto
  with s s1 s2 have "s = pre @ ''['' @ ts @ ''] [ERROR]'' @ post \<and> ts \<noteq> []
        \<and> list_all digit_or_dot ts" by simp
  then show "\<exists>pre ts post. s = pre @ ''['' @ ts @ ''] [ERROR]'' @ post \<and> ts \<noteq> []
        \<and> list_all digit_or_dot ts" by blast
next
  assume "\<exists>pre ts post. s = pre @ ''['' @ ts @ ''] [ERROR]'' @ post \<and> ts \<noteq> []
        \<and> list_all digit_or_dot ts"
  then obtain pre ts post where s: "s = pre @ ''['' @ ts @ ''] [ERROR]'' @ post"
    and ts: "ts \<noteq> []" "list_all digit_or_dot ts" by blast
  have "re_match (lits ''] [ERROR]'') (''] [ERROR]'' @ post) = Some post"
    using re_match_lits [of "''] [ERROR]''" "[]" "''] [ERROR]'' @ post" post] by simp
  with ts re_match_lazy [of digit_or_dot "lits ''] [ERROR]''" "ts @ ''] [ERROR]'' @ post"]
  obtain rest where
    "re_match ((digit_or_dot, Plus_Lazy) # lits ''] [ERROR]'') (ts @ ''] [ERROR]'' @ post) = Some rest"
    by blast
  then have "re_match failed_regex (''['' @ ts @ ''] [ERROR]'' @ post) = Some rest"
    unfolding failed_regex_def re_match_lits by simp
  with s show "re_search failed_regex s"
    unfolding re_search_iff by blast
qed

lemma of_char_eq_numeral:
  "(of_char c :: nat) = of_char d \<longleftrightarrow> c = d"
  by (rule of_char_eq_iff)

lemma digit_iff: "digit c \<longleftrightarrow> c \<in> set ''0123456789''"
proof
  assume "digit c"
  then have "(of_char c :: nat) \<in> {48, 49, 50, 51, 52, 53, 54, 55, 56, 57}"
    unfolding digit_def in_range_def by (simp; arith)
  then have "(of_char c :: nat) \<in> of_char ` set ''0123456789''"
    by simp
  then obtain d where "d \<in> set ''0123456789''" "(of_char c :: nat) = of_char d"
    by blast
  then show "c \<in> set ''0123456789''"
    by (simp only: of_char_eq_numeral)
next
  assume "c \<in> set ''0123456789''"
  then show "digit c"
    unfolding digit_def in_range_def by auto
qed

lemma digit_or_dot_char: "digit_or_dot c \<longleftrightarrow> c \<in> set ''0123456789.''"
  unfolding digit_or_dot_def digit_iff by simp

lemma digit_or_dot_iff: "list_all digit_or_dot ts \<longleftrightarrow> set ts \<subseteq> set ''0123456789.''"
  unfolding list_all_iff subset_eq using digit_or_dot_char by blast

text \<open>
  C3. The failure check is true for a log text exactly when the text contains, at any
  position, \<open>[\<close>, one or more characters that are digits or dots, and \<open>] [ERROR]\<close>.
  A log containing \<open>[12.34] [ERROR]\<close> gives true; the same line without the brackets
  around the timestamp gives false.
\<close>

theorem check_for_failure_iff:
  "check_for_failure e self \<longleftrightarrow>
     (\<exists>pre ts post. logs_content e = pre @ ''['' @ ts @ ''] [ERROR]'' @ post
        \<and> ts \<noteq> [] \<and> set ts \<subseteq> set ''0123456789.'')"
  unfolding check_for_failure_def failed_regex_search digit_or_dot_iff ..

theorem check_for_failure_iff_witness:
  "check_for_failure
     \<lparr>logs_content = ''t [12.34] [ERROR] boom'', head_object = (\<lambda>k. Head_Ok),
      re_sub_other = (\<lambda>p t. Inr t)\<rparr>
     (FaaSrFunction_init ''f'' ''wf'' ''run1'' False 3)
   \<and> \<not> check_for_failure
     \<lparr>logs_content = ''t 12.34 [ERROR] boom'', head_object = (\<lambda>k. Head_Ok),
      re_sub_other = (\<lambda>p t. Inr t)\<rparr>
     (FaaSrFunction_init ''f'' ''wf'' ''run1'' False 3)"
proof -
  have "''t [12.34] [ERROR] boom'' = ''t '' @ ''['' @ ''12.34'' @ ''] [ERROR]'' @ '' boom''
      \<and> ''12.34'' \<noteq> [] \<and> set ''12.34'' \<subseteq> set ''0123456789.''"
    by simp
  then have "\<exists>pre ts post. ''t [12.34] [ERROR] boom'' = pre @ ''['' @ ts @ ''] [ERROR]'' @ post
      \<and> ts \<noteq> [] \<and> set ts \<subseteq> set ''0123456789.''"
    by blast
  then have yes: "check_for_failure
     \<lparr>logs_content = ''t [12.34] [ERROR] boom'', head_object = (\<lambda>k. Head_Ok),
      re_sub_other = (\<lambda>p t. Inr t)\<rparr>
     (FaaSrFunction_init ''f'' ''wf'' ''run1'' False 3)"
    using check_for_failure_iff
      [of "\<lparr>logs_content = ''t [12.34] [ERROR] boom'', head_object = (\<lambda>k. Head_Ok),
            re_sub_other = (\<lambda>p t. Inr t)\<rparr>"
          "FaaSrFunction_init ''f'' ''wf'' ''run1'' False 3"]
    by simp
  have no: "\<not> check_for_failure
     \<lparr>logs_content = ''t 12.34 [ERROR] boom'', head_object = (\<lambda>k. Head_Ok),
      re_sub_other = (\<lambda>p t. Inr t)\<rparr>
     (FaaSrFunction_init ''f'' ''wf'' ''run1'' False 3)"
    by (simp add: check_for_failure_def failed_regex_def lits_def lit_def)
  from yes no show ?thesis by simp
qed

subsection \<open>Storage existence check\<close>

text \<open>
  C8. \<open>object_exists\<close> returns false exactly when the head request raises a
  \<open>ClientError\<close> with code 404, returns true exactly when the head request succeeds, and
  raises \<open>S3ClientError\<close> exactly for a \<open>ClientError\<close> with any other code. In that
  case no result is returned: the exception reaches the caller, and the \<open>updated\<close>
  handler hands it on with the tracker unchanged.
\<close>

theorem object_exists_cases:
  "(object_exists h key = Inr False \<longleftrightarrow> h key = ClientError ''404'')
   \<and> (object_exists h key = Inr True \<longleftrightarrow> h key = Head_Ok)
   \<and> (h key = ClientError code \<and> code \<noteq> ''404''
        \<longrightarrow> object_exists h key = Inl (S3ClientError code))
   \<and> ((\<exists>c. object_exists h key = Inl (S3ClientError c))
        \<longleftrightarrow> (\<exists>c. h key = ClientError c \<and> c \<noteq> ''404''))
   \<and> (\<not> check_for_failure e self \<and> check_for_completion e self = Inl err
        \<longrightarrow> on_log_event LOG_UPDATED e self = (Some err, self))"
proof -
  have 1: "object_exists h key = Inr False \<longleftrightarrow> h key = ClientError ''404''"
    by (simp add: object_exists_def split: head_outcome.splits)
  have 2: "object_exists h key = Inr True \<longleftrightarrow> h key = Head_Ok"
    by (simp add: object_exists_def split: head_outcome.splits)
  have 3: "object_exists h key = Inl (S3ClientError code)"
    if "h key = ClientError code" "code \<noteq> ''404''"
    using that by (simp add: object_exists_def)
  have 4: "(\<exists>c. object_exists h key = Inl (S3ClientError c))
        \<longleftrightarrow> (\<exists>c. h key = ClientError c \<and> c \<noteq> ''404'')"
    by (cases "h key") (simp_all add: object_exists_def)
  have 5: "on_log_event LOG_UPDATED e self = (Some err, self)"
    if "\<not> check_for_failure e self" "check_for_completion e self = Inl err"
    using that by (simp add: handle_log_updated_def)
  from 1 2 3 4 5 show ?thesis by blast
qed

theorem object_exists_cases_witness:
  "object_exists (\<lambda>k. ClientError ''403'') ''run1/function_completions/f.done''
     = Inl (S3ClientError ''403'')
   \<and> object_exists (\<lambda>k. ClientError ''404'') ''run1/function_completions/f.done'' = Inr False
   \<and> object_exists (\<lambda>k. Head_Ok) ''run1/function_completions/f.done'' = Inr True
   \<and> on_log_event LOG_UPDATED
        \<lparr>logs_content = ''started'', head_object = (\<lambda>k. ClientError ''403''),
         re_sub_other = (\<lambda>p t. Inr t)\<rparr>
        (FaaSrFunction_init ''f'' ''wf'' ''run1'' False 3)
      = (Some (S3ClientError ''403''), FaaSrFunction_init ''f'' ''wf'' ''run1'' False 3)"
proof -
  have nf: "\<not> check_for_failure
        \<lparr>logs_content = ''started'', head_object = (\<lambda>k. ClientError ''403''),
         re_sub_other = (\<lambda>p t. Inr t)\<rparr>
        (FaaSrFunction_init ''f'' ''wf'' ''run1'' False 3)"
    by (simp add: check_for_failure_def failed_regex_def lits_def lit_def)
  have c: "check_for_completion
        \<lparr>logs_content = ''started'', head_object = (\<lambda>k. ClientError ''403''),
         re_sub_other = (\<lambda>p t. Inr t)\<rparr>
        (FaaSrFunction_init ''f'' ''wf'' ''run1'' False 3) = Inl (S3ClientError ''403'')"
    by (simp add: check_for_completion_def object_exists_def)
  show ?thesis
    using nf c
      object_exists_cases [of "\<lambda>k. ClientError ''403''" "''run1/function_completions/f.done''"
        "''403''"
        "\<lparr>logs_content = ''started'', head_object = (\<lambda>k. ClientError ''403''),
         re_sub_other = (\<lambda>p t. Inr t)\<rparr>"
        "FaaSrFunction_init ''f'' ''wf'' ''run1'' False 3" "S3ClientError ''403''"]
      object_exists_cases [of "\<lambda>k. ClientError ''404''" "''run1/function_completions/f.done''"]
      object_exists_cases [of "\<lambda>k. Head_Ok" "''run1/function_completions/f.done''"]
    by simp
qed

subsection \<open>The updated event\<close>

text \<open>
  C1. On every \<open>updated\<close> event the failure check comes first: if the failure pattern
  matches the log text, the status becomes FAILED and the log source is stopped, whether
  or not the marker exists. Otherwise, if the head request for the marker key succeeds,
  the status becomes COMPLETED and the log source is stopped. Otherwise the tracker is
  left as it was.
\<close>

theorem handle_log_updated_cases:
  "(check_for_failure e self
      \<longrightarrow> on_log_event LOG_UPDATED e self
            = (None, self\<lparr>priv_status := FAILED, logger_stopped := True\<rparr>))
   \<and> (\<not> check_for_failure e self \<and> head_object e (done_key self) = Head_Ok
      \<longrightarrow> on_log_event LOG_UPDATED e self
            = (None, self\<lparr>priv_status := COMPLETED, logger_stopped := True\<rparr>))
   \<and> (\<not> check_for_failure e self \<and> head_object e (done_key self) \<noteq> Head_Ok
      \<longrightarrow> snd (on_log_event LOG_UPDATED e self) = self)
   \<and> status (self\<lparr>priv_status := st, logger_stopped := b\<rparr>) = st
   \<and> check_for_failure e self = re_search failed_regex (logs_content e)"
proof -
  have 1: "on_log_event LOG_UPDATED e self
            = (None, self\<lparr>priv_status := FAILED, logger_stopped := True\<rparr>)"
    if "check_for_failure e self"
    using that by (simp add: handle_log_updated_def set_status_def logger_stop_def)
  have 2: "on_log_event LOG_UPDATED e self
            = (None, self\<lparr>priv_status := COMPLETED, logger_stopped := True\<rparr>)"
    if "\<not> check_for_failure e self" "head_object e (done_key self) = Head_Ok"
    using that
    by (simp add: handle_log_updated_def set_status_def logger_stop_def
        check_for_completion_def object_exists_def)
  have 3: "snd (on_log_event LOG_UPDATED e self) = self"
    if "\<not> check_for_failure e self" "head_object e (done_key self) \<noteq> Head_Ok"
    using that
    by (cases "head_object e (done_key self)")
      (simp_all add: handle_log_updated_def check_for_completion_def object_exists_def)
  have 4: "status (self\<lparr>priv_status := st, logger_stopped := b\<rparr>) = st"
    by (simp add: status_def)
  have 5: "check_for_failure e self = re_search failed_regex (logs_content e)"
    by (simp add: check_for_failure_def)
  from 1 2 3 4 5 show ?thesis by blast
qed

theorem handle_log_updated_cases_witness:
  "on_log_event LOG_UPDATED
     \<lparr>logs_content = ''[1.0] [ERROR] x'', head_object = (\<lambda>k. Head_Ok),
      re_sub_other = (\<lambda>p t. Inr t)\<rparr>
     (FaaSrFunction_init ''f'' ''wf'' ''run1'' False 3)
   = (None, (FaaSrFunction_init ''f'' ''wf'' ''run1'' False 3)
              \<lparr>priv_status := FAILED, logger_stopped := True\<rparr>)
   \<and> on_log_event LOG_UPDATED
     \<lparr>logs_content = ''ok'', head_object = (\<lambda>k. Head_Ok),
      re_sub_other = (\<lambda>p t. Inr t)\<rparr>
     (FaaSrFunction_init ''f'' ''wf'' ''run1'' False 3)
   = (None, (FaaSrFunction_init ''f'' ''wf'' ''run1'' False 3)
              \<lparr>priv_status := COMPLETED, logger_stopped := True\<rparr>)
   \<and> snd (on_log_event LOG_UPDATED
     \<lparr>logs_content = ''ok'', head_object = (\<lambda>k. ClientError ''404''),
      re_sub_other = (\<lambda>p t. Inr t)\<rparr>
     (FaaSrFunction_init ''f'' ''wf'' ''run1'' False 3))
   = FaaSrFunction_init ''f'' ''wf'' ''run1'' False 3"
proof -
  have f: "check_for_failure
     \<lparr>logs_content = ''[1.0] [ERROR] x'', head_object = (\<lambda>k. Head_Ok),
      re_sub_other = (\<lambda>p t. Inr t)\<rparr>
     (FaaSrFunction_init ''f'' ''wf'' ''run1'' False 3)"
    by (simp add: check_for_failure_def failed_regex_def lits_def lit_def digit_or_dot_def
        digit_def in_range_def)
  have n: "\<not> check_for_failure
     \<lparr>logs_content = ''ok'', head_object = h, re_sub_other = (\<lambda>p t. Inr t)\<rparr>
     (FaaSrFunction_init ''f'' ''wf'' ''run1'' False 3)" for h
    by (simp add: check_for_failure_def failed_regex_def lits_def lit_def)
  show ?thesis
    using f n [of "\<lambda>k. Head_Ok"] n [of "\<lambda>k. ClientError ''404''"]
      handle_log_updated_cases
        [of "\<lparr>logs_content = ''[1.0] [ERROR] x'', head_object = (\<lambda>k. Head_Ok),
              re_sub_other = (\<lambda>p t. Inr t)\<rparr>"
            "FaaSrFunction_init ''f'' ''wf'' ''run1'' False 3"]
      handle_log_updated_cases
        [of "\<lparr>logs_content = ''ok'', head_object = (\<lambda>k. Head_Ok),
              re_sub_other = (\<lambda>p t. Inr t)\<rparr>"
            "FaaSrFunction_init ''f'' ''wf'' ''run1'' False 3"]
      handle_log_updated_cases
        [of "\<lparr>logs_content = ''ok'', head_object = (\<lambda>k. ClientError ''404''),
              re_sub_other = (\<lambda>p t. Inr t)\<rparr>"
            "FaaSrFunction_init ''f'' ''wf'' ''run1'' False 3"]
    by simp
qed

subsection \<open>Explicit status override\<close>

text \<open>
  C7. \<open>set_status\<close> stores the given value whatever the current value is (there is no
  check of the transition), does not stop the log source and does not touch the
  invocation set. After construction, an override to SKIPPED is what the status reads,
  with no event delivered. A later event overwrites an overridden value: \<open>created\<close>
  sets RUNNING.
\<close>

theorem set_status_override:
  "status (set_status st self) = st
   \<and> logger_stopped (set_status st self) = logger_stopped self
   \<and> invocations (set_status st self) = invocations self
   \<and> status (set_status SKIPPED (FaaSrFunction_init fname wname folder stream interval)) = SKIPPED
   \<and> \<not> logger_stopped (set_status SKIPPED (FaaSrFunction_init fname wname folder stream interval))
   \<and> status (snd (on_log_event LOG_CREATED e (set_status st self))) = RUNNING"
  by (simp add: status_def set_status_def invocations_def FaaSrFunction_init_def
      handle_log_created_def)

subsection \<open>The invocation set before and after the complete event\<close>

lemma invocations_set_status: "invocations (set_status st self) = invocations self"
  by (simp add: invocations_def set_status_def)

lemma invocations_created:
  "invocations (snd (handle_log_created e self)) = invocations self"
  by (simp add: handle_log_created_def invocations_def set_status_def)

lemma invocations_updated:
  "invocations (snd (handle_log_updated e self)) = invocations self"
  by (simp add: handle_log_updated_def invocations_def set_status_def logger_stop_def
      split: sum.splits bool.splits)

lemma invocations_not_complete:
  "ev \<noteq> LOG_COMPLETE \<Longrightarrow> invocations (snd (on_log_event ev e self)) = invocations self"
  by (cases ev) (simp_all add: invocations_created invocations_updated)

lemma invocations_run_no_complete:
  "LOG_COMPLETE \<notin> set (map fst evs) \<Longrightarrow> invocations (run_events evs self) = invocations self"
proof (induction evs arbitrary: self)
  case Nil
  then show ?case by simp
next
  case (Cons x evs)
  obtain ev e where x: "x = (ev, e)" by (cases x)
  with Cons.prems have "ev \<noteq> LOG_COMPLETE" "LOG_COMPLETE \<notin> set (map fst evs)" by auto
  with Cons.IH [of "snd (on_log_event ev e self)"] x show ?case
    by (simp add: invocations_not_complete)
qed

lemma invocations_complete_stored:
  assumes "sub_all (re_sub_prefix e (workflow_name self))
             (re_findall invoked_lookbehind invoked_body (logs_content e)) = Inr xs"
  shows "invocations (snd (on_log_event LOG_COMPLETE e self)) = Some (set xs)"
  using assms
  by (simp add: handle_log_complete_def extract_invocations_def invocations_def
      set_status_def split: sum.splits bool.splits)

lemma invocations_complete_raised:
  assumes "sub_all (re_sub_prefix e (workflow_name self))
             (re_findall invoked_lookbehind invoked_body (logs_content e)) = Inl err"
  shows "on_log_event LOG_COMPLETE e self = (Some err, self)"
  using assms
  by (simp add: handle_log_complete_def extract_invocations_def)

text \<open>
  C5. A freshly constructed tracker has status PENDING and its invocation set reads
  \<open>None\<close>, which is not the empty set. It still reads \<open>None\<close> after any events other
  than \<open>complete\<close>. When \<open>complete\<close> is handled and the extraction returns, the set of
  the extracted names is what it reads from then on; when the extraction raises, nothing
  is stored.
\<close>

theorem invocations_unknown_until_complete:
  "status (FaaSrFunction_init fname wname folder stream interval) = PENDING
   \<and> invocations (FaaSrFunction_init fname wname folder stream interval) = None
   \<and> (None :: string set option) \<noteq> Some {}
   \<and> (LOG_COMPLETE \<notin> set (map fst evs)
        \<longrightarrow> invocations (run_events evs (FaaSrFunction_init fname wname folder stream interval))
              = None)
   \<and> (sub_all (re_sub_prefix e (workflow_name self))
         (re_findall invoked_lookbehind invoked_body (logs_content e)) = Inr xs
        \<longrightarrow> invocations (snd (on_log_event LOG_COMPLETE e self)) = Some (set xs))
   \<and> (sub_all (re_sub_prefix e (workflow_name self))
         (re_findall invoked_lookbehind invoked_body (logs_content e)) = Inl err
        \<longrightarrow> on_log_event LOG_COMPLETE e self = (Some err, self))"
proof -
  have 1: "status (FaaSrFunction_init fname wname folder stream interval) = PENDING"
    by (simp add: status_def FaaSrFunction_init_def)
  have 2: "invocations (FaaSrFunction_init fname wname folder stream interval) = None"
    by (simp add: invocations_def FaaSrFunction_init_def)
  have 3: "invocations (run_events evs (FaaSrFunction_init fname wname folder stream interval))
              = None" if "LOG_COMPLETE \<notin> set (map fst evs)"
    using that 2 by (simp add: invocations_run_no_complete)
  from 1 2 3 invocations_complete_stored invocations_complete_raised
  show ?thesis by blast
qed

theorem invocations_unknown_until_complete_witness:
  "invocations (run_events
       [(LOG_CREATED, env_of (invoked_line ''wf-taskA'') (ClientError ''404'')),
        (LOG_UPDATED, env_of (invoked_line ''wf-taskA'') (ClientError ''404''))]
       (FaaSrFunction_init ''f'' ''wf'' ''run1'' False 3)) = None
   \<and> invocations (snd (on_log_event LOG_COMPLETE
       (env_of (invoked_line ''wf-taskA'') (ClientError ''404''))
       (FaaSrFunction_init ''f'' ''wf'' ''run1'' False 3))) = Some {''taskA''}
   \<and> on_log_event LOG_COMPLETE
       (env_of (invoked_line ''wf-taskA'') (ClientError ''404''))
       (FaaSrFunction_init ''f'' ''w('' ''run1'' False 3)
     = (Some (Foreign ''re.error''), FaaSrFunction_init ''f'' ''w('' ''run1'' False 3)"
proof -
  have h1: "LOG_COMPLETE \<notin> set (map fst
       [(LOG_CREATED, env_of (invoked_line ''wf-taskA'') (ClientError ''404'')),
        (LOG_UPDATED, env_of (invoked_line ''wf-taskA'') (ClientError ''404''))])"
    by simp
  have h2: "sub_all
        (re_sub_prefix (env_of (invoked_line ''wf-taskA'') (ClientError ''404''))
           (workflow_name (FaaSrFunction_init ''f'' ''wf'' ''run1'' False 3)))
        (re_findall invoked_lookbehind invoked_body
           (logs_content (env_of (invoked_line ''wf-taskA'') (ClientError ''404''))))
      = Inr [''taskA'']"
    by code_simp
  have h3: "sub_all
        (re_sub_prefix (env_of (invoked_line ''wf-taskA'') (ClientError ''404''))
           (workflow_name (FaaSrFunction_init ''f'' ''w('' ''run1'' False 3)))
        (re_findall invoked_lookbehind invoked_body
           (logs_content (env_of (invoked_line ''wf-taskA'') (ClientError ''404''))))
      = Inl (Foreign ''re.error'')"
    by code_simp
  note t = invocations_unknown_until_complete
  from h1 t [where evs = "[(LOG_CREATED, env_of (invoked_line ''wf-taskA'') (ClientError ''404'')),
        (LOG_UPDATED, env_of (invoked_line ''wf-taskA'') (ClientError ''404''))]"
      and fname = "''f''" and wname = "''wf''" and folder = "''run1''" and stream = False
      and interval = 3]
  have a: "invocations (run_events
       [(LOG_CREATED, env_of (invoked_line ''wf-taskA'') (ClientError ''404'')),
        (LOG_UPDATED, env_of (invoked_line ''wf-taskA'') (ClientError ''404''))]
       (FaaSrFunction_init ''f'' ''wf'' ''run1'' False 3)) = None"
    by blast
  from h2 t [where e = "env_of (invoked_line ''wf-taskA'') (ClientError ''404'')"
      and self = "FaaSrFunction_init ''f'' ''wf'' ''run1'' False 3" and xs = "[''taskA'']"]
  have "invocations (snd (on_log_event LOG_COMPLETE
       (env_of (invoked_line ''wf-taskA'') (ClientError ''404''))
       (FaaSrFunction_init ''f'' ''wf'' ''run1'' False 3))) = Some (set [''taskA''])"
    by blast
  then have b: "invocations (snd (on_log_event LOG_COMPLETE
       (env_of (invoked_line ''wf-taskA'') (ClientError ''404''))
       (FaaSrFunction_init ''f'' ''wf'' ''run1'' False 3))) = Some {''taskA''}"
    by simp
  from h3 t [where e = "env_of (invoked_line ''wf-taskA'') (ClientError ''404'')"
      and self = "FaaSrFunction_init ''f'' ''w('' ''run1'' False 3"
      and err = "Foreign ''re.error''"]
  have c: "on_log_event LOG_COMPLETE
       (env_of (invoked_line ''wf-taskA'') (ClientError ''404''))
       (FaaSrFunction_init ''f'' ''w('' ''run1'' False 3)
     = (Some (Foreign ''re.error''), FaaSrFunction_init ''f'' ''w('' ''run1'' False 3)"
    by blast
  from a b c show ?thesis by blast
qed

subsection \<open>Status along a sequence of events\<close>












text \<open>
  The guarantee rests on the log source. The handlers do not look at the current status:
  applied to an event after \<open>stop()\<close>, the final check of \<open>complete\<close> sets the status
  anew.
\<close>

lemma handlers_after_stop_overwrite:
  "status (run_events [(LOG_UPDATED, env_of ''started'' Head_Ok)]
        (FaaSrFunction_init ''f'' ''wf'' ''run1'' False 3)) = COMPLETED
   \<and> logger_stopped (run_events [(LOG_UPDATED, env_of ''started'' Head_Ok)]
        (FaaSrFunction_init ''f'' ''wf'' ''run1'' False 3))
   \<and> status (run_events [(LOG_UPDATED, env_of ''started'' Head_Ok),
                          (LOG_COMPLETE, env_of ''started [1.0] [ERROR] x'' Head_Ok)]
        (FaaSrFunction_init ''f'' ''wf'' ''run1'' False 3)) = FAILED"
  by code_simp

subsection \<open>Invocation extraction\<close>

lemma re_match_consumes:
  "re_match r s = Some rest \<Longrightarrow> length rest + length r \<le> length s"
proof (induction r s arbitrary: rest rule: re_match.induct)
  case (1 s)
  then show ?case by simp
next
  case (2 p q r)
  then show ?case by simp
next
  case (3 p r c cs)
  then show ?case by (fastforce split: if_splits)
next
  case (4 p r c cs)
  show ?case
  proof (cases "p c")
    case False
    with "4.prems" show ?thesis by simp
  next
    case True
    show ?thesis
    proof (cases "re_match ((p, Plus_Greedy) # r) cs")
      case None
      with True "4.prems" have "re_match r cs = Some rest" by simp
      with "4.IH"(2) [OF True None] show ?thesis by fastforce
    next
      case (Some x)
      with True "4.prems" have "x = rest" by simp
      with Some "4.IH"(1) [OF True] show ?thesis by fastforce
    qed
  qed
next
  case (5 p r c cs)
  show ?case
  proof (cases "p c")
    case False
    with "5.prems" show ?thesis by simp
  next
    case True
    show ?thesis
    proof (cases "re_match r cs")
      case None
      with True "5.prems" have "re_match ((p, Plus_Lazy) # r) cs = Some rest" by simp
      with "5.IH"(2) [OF True None] show ?thesis by fastforce
    next
      case (Some x)
      with True "5.prems" have "x = rest" by simp
      with Some "5.IH"(1) [OF True] show ?thesis by fastforce
    qed
  qed
qed

lemma findall_token_length:
  "body \<noteq> [] \<Longrightarrow> tok \<in> set (re_findall_from lb body seen s) \<Longrightarrow> length body \<le> length tok"
proof (induction lb body seen s rule: re_findall_from.induct)
  case (1 lb body seen s)
  show ?case
  proof (cases "if lookbehind lb seen then re_match body s else None")
    case None
    then have eq: "re_findall_from lb body seen s =
        (case s of [] \<Rightarrow> [] | c # cs \<Rightarrow> re_findall_from lb body (seen @ [c]) cs)"
      by (subst re_findall_from.simps) (simp only: option.simps)
    show ?thesis
    proof (cases s)
      case Nil
      with eq "1.prems" show ?thesis by simp
    next
      case (Cons c cs)
      with eq "1.prems" have "tok \<in> set (re_findall_from lb body (seen @ [c]) cs)"
        by simp
      with "1.IH"(1) [OF None Cons] "1.prems"(1) show ?thesis by simp
    qed
  next
    case (Some rest)
    then have m: "re_match body s = Some rest" by (simp split: if_splits)
    then have len: "length rest + length body \<le> length s" by (rule re_match_consumes)
    with "1.prems"(1) have lt: "length rest < length s" by (cases body) auto
    from Some lt have eq: "re_findall_from lb body seen s =
        take (length s - length rest) s
          # re_findall_from lb body (seen @ take (length s - length rest) s) rest"
      by (subst re_findall_from.simps) (simp only: option.simps if_True)
    with "1.prems"(2)
    have "tok = take (length s - length rest) s
          \<or> tok \<in> set (re_findall_from lb body (seen @ take (length s - length rest) s) rest)"
      by simp
    then show ?thesis
    proof
      assume "tok = take (length s - length rest) s"
      with len show ?thesis by simp
    next
      assume "tok \<in> set (re_findall_from lb body (seen @ take (length s - length rest) s) rest)"
      with "1.IH"(2) [OF Some lt] "1.prems"(1) show ?thesis by simp
    qed
  qed
qed

lemma invoked_token_length:
  "tok \<in> set (re_findall invoked_lookbehind invoked_body logs) \<Longrightarrow> 2 \<le> length tok"
  using findall_token_length [of invoked_body tok invoked_lookbehind "[]" logs]
  by (simp add: re_findall_def invoked_body_def)

lemma sub_all_elems:
  "sub_all f xs = Inr ys \<Longrightarrow> y \<in> set ys \<Longrightarrow> \<exists>x \<in> set xs. f x = Inr y"
proof (induction xs arbitrary: ys)
  case Nil
  then show ?case by simp
next
  case (Cons x xs)
  from Cons.prems(1) obtain z zs where z: "f x = Inr z" "sub_all f xs = Inr zs" "ys = z # zs"
    by (auto split: sum.splits)
  with Cons.prems(2) consider "y = z" | "y \<in> set zs" by auto
  then show ?case
  proof cases
    case 1
    with z show ?thesis by simp
  next
    case 2
    with Cons.IH [OF z(2)] show ?thesis by auto
  qed
qed

lemma re_parse_literal:
  "\<forall>c\<in>set s. \<not> special c \<and> c \<noteq> CHR ''.'' \<Longrightarrow> re_parse s = Some (lits s)"
  by (induction s) (auto simp: lits_def)

lemma re_match_lits_all:
  "re_match (lits l) tok =
     (if take (length l) tok = l then Some (drop (length l) tok) else None)"
proof (cases "re_match (lits l) tok")
  case None
  have "take (length l) tok \<noteq> l"
  proof
    assume "take (length l) tok = l"
    then have "tok = l @ drop (length l) tok" by (metis append_take_drop_id)
    with re_match_lits [of l "[]" tok "drop (length l) tok"] None show False by auto
  qed
  with None show ?thesis by simp
next
  case (Some rest)
  with re_match_lits [of l "[]" tok rest] have "tok = l @ rest" by simp
  with Some show ?thesis by simp
qed

text \<open>
  For a workflow name without special characters, \<open>re.sub\<close> removes the leading
  \<open><workflow-name>-\<close> from a token that starts with it and leaves any other token as it
  is. For log lines with \<open>wf-taskA\<close> twice and \<open>wf-taskB\<close> once and the workflow name
  \<open>wf\<close> the stored set is \<open>{taskA, taskB}\<close>.
\<close>

lemma re_sub_prefix_literal:
  assumes "\<forall>c\<in>set wname. \<not> special c \<and> c \<noteq> CHR ''.''"
  shows "re_sub_prefix e wname tok =
     Inr (if take (length wname + 1) tok = wname @ ''-''
          then drop (length wname + 1) tok else tok)"
proof -
  from assms have "\<forall>c\<in>set (wname @ ''-''). \<not> special c \<and> c \<noteq> CHR ''.''"
    by (simp add: special_def)
  then have "re_parse (wname @ ''-'') = Some (lits (wname @ ''-''))"
    by (rule re_parse_literal)
  then show ?thesis
    by (simp add: re_sub_prefix_def re_match_lits_all)
qed

lemma extract_invocations_spec_example:
  "invocations (snd (on_log_event LOG_COMPLETE
       (env_of (invoked_line ''wf-taskA'' @ invoked_line ''wf-taskB'' @ invoked_line ''wf-taskA'')
          (ClientError ''404''))
       (FaaSrFunction_init ''f'' ''wf'' ''run1'' False 3)))
     = Some {''taskA'', ''taskB''}"
  by code_simp

text \<open>
  C4. The workflow name goes into the pattern of \<open>re.sub\<close> without \<open>re.escape\<close>, so a
  dot in the name matches any character. With the workflow name \<open>my.flow\<close> and a log line
  that reports the invocation of \<open>my-flow-task\<close>, the stored set is \<open>{task}\<close>, although
  the token does not start with \<open>my.flow-\<close>.
\<close>

theorem extract_invocations_unescaped_name:
  "invocations (snd (on_log_event LOG_COMPLETE
       (env_of (invoked_line ''my-flow-task'') (ClientError ''404''))
       (FaaSrFunction_init ''f'' ''my.flow'' ''run1'' False 3)))
     = Some {''task''}
   \<and> take (length ''my.flow-'') ''my-flow-task'' \<noteq> ''my.flow-''"
  by code_simp

lemma invoked_body_one_char: "re_match invoked_body [c] = None"
  by (simp add: invoked_body_def)

lemma invoked_body_stops:
  "\<not> name_char d \<Longrightarrow> re_match invoked_body (c # d # rest) = None"
  by (simp add: invoked_body_def)

lemma extracted_from_token:
  assumes "fst (extract_invocations e self) = None"
    and "invocations (snd (extract_invocations e self)) = Some S"
    and "x \<in> S"
  shows "\<exists>tok\<in>set (re_findall invoked_lookbehind invoked_body (logs_content e)).
           2 \<le> length tok \<and> re_sub_prefix e (workflow_name self) tok = Inr x"
proof -
  from assms(1) obtain xs where
    xs: "sub_all (re_sub_prefix e (workflow_name self))
           (re_findall invoked_lookbehind invoked_body (logs_content e)) = Inr xs"
    by (auto simp: extract_invocations_def split: sum.splits)
  with assms(2) have "S = set xs"
    by (simp add: extract_invocations_def invocations_def)
  with assms(3) have "x \<in> set xs" by simp
  with xs obtain tok where
    "tok \<in> set (re_findall invoked_lookbehind invoked_body (logs_content e))"
    "re_sub_prefix e (workflow_name self) tok = Inr x"
    using sub_all_elems by blast
  with invoked_token_length show ?thesis by blast
qed

text \<open>
  C10. Every token that the invocation pattern matches has at least two characters: a
  letter and at least one further letter, digit or hyphen. A name of one character after
  the marker text is not matched. Every name in the stored set is the result of \<open>re.sub\<close>
  on such a token; the name itself can be shorter than the token.
\<close>

theorem invoked_tokens_two_chars:
  "(\<forall>tok\<in>set (re_findall invoked_lookbehind invoked_body logs). 2 \<le> length tok)
   \<and> re_match invoked_body [c] = None
   \<and> (\<not> name_char d \<longrightarrow> re_match invoked_body (c # d # rest) = None)
   \<and> (fst (extract_invocations e self) = None
       \<and> invocations (snd (extract_invocations e self)) = Some S \<and> x \<in> S
       \<longrightarrow> (\<exists>tok\<in>set (re_findall invoked_lookbehind invoked_body (logs_content e)).
             2 \<le> length tok \<and> re_sub_prefix e (workflow_name self) tok = Inr x))"
  using invoked_token_length invoked_body_one_char invoked_body_stops extracted_from_token
  by blast

theorem invoked_tokens_two_chars_witness:
  "re_findall invoked_lookbehind invoked_body (invoked_line ''wf-a'') = [''wf-a'']
   \<and> 2 \<le> length ''wf-a''
   \<and> re_match invoked_body ''a'' = None
   \<and> re_match invoked_body (CHR ''a'' # CHR 0x0A # []) = None
   \<and> re_findall invoked_lookbehind invoked_body (invoked_line ''a'') = []
   \<and> re_sub_prefix (env_of (invoked_line ''wf-a'') (ClientError ''404''))
        (workflow_name (FaaSrFunction_init ''f'' ''wf'' ''run1'' False 3)) ''wf-a'' = Inr ''a''"
proof -
  note t = invoked_tokens_two_chars
  have a: "re_findall invoked_lookbehind invoked_body (invoked_line ''wf-a'') = [''wf-a'']"
    by code_simp
  from t [where logs = "invoked_line ''wf-a''"] a have b: "2 \<le> length ''wf-a''"
    by simp
  from t [where c = "CHR ''a''"] have c: "re_match invoked_body ''a'' = None"
    by blast
  have "\<not> name_char (CHR 0x0A)" by code_simp
  with t [where c = "CHR ''a''" and d = "CHR 0x0A" and rest = "[]"]
  have d: "re_match invoked_body (CHR ''a'' # CHR 0x0A # []) = None"
    by blast
  have e: "re_findall invoked_lookbehind invoked_body (invoked_line ''a'') = []"
    by code_simp
  have h1: "fst (extract_invocations (env_of (invoked_line ''wf-a'') (ClientError ''404''))
      (FaaSrFunction_init ''f'' ''wf'' ''run1'' False 3)) = None"
    by code_simp
  have h2: "invocations (snd (extract_invocations
      (env_of (invoked_line ''wf-a'') (ClientError ''404''))
      (FaaSrFunction_init ''f'' ''wf'' ''run1'' False 3))) = Some {''a''}"
    by code_simp
  have h3: "logs_content (env_of (invoked_line ''wf-a'') (ClientError ''404''))
      = invoked_line ''wf-a''"
    by (simp add: env_of_def)
  from h1 h2 t [where e = "env_of (invoked_line ''wf-a'') (ClientError ''404'')"
      and self = "FaaSrFunction_init ''f'' ''wf'' ''run1'' False 3"
      and S = "{''a''}" and x = "''a''"]
  have "\<exists>tok\<in>set (re_findall invoked_lookbehind invoked_body
            (logs_content (env_of (invoked_line ''wf-a'') (ClientError ''404'')))).
          2 \<le> length tok
          \<and> re_sub_prefix (env_of (invoked_line ''wf-a'') (ClientError ''404''))
               (workflow_name (FaaSrFunction_init ''f'' ''wf'' ''run1'' False 3)) tok
             = Inr ''a''"
    by blast
  with a h3 have f: "re_sub_prefix (env_of (invoked_line ''wf-a'') (ClientError ''404''))
        (workflow_name (FaaSrFunction_init ''f'' ''wf'' ''run1'' False 3)) ''wf-a'' = Inr ''a''"
    by simp
  from a b c d e f show ?thesis by blast
qed

text \<open>
  The stored set can contain a name of one character: with the workflow name \<open>wf\<close>, the
  token \<open>wf-a\<close> is stored as \<open>a\<close>.
\<close>

theorem single_character_invocation_counterexample:
  "invocations (snd (on_log_event LOG_COMPLETE
       (env_of (invoked_line ''wf-a'') (ClientError ''404''))
       (FaaSrFunction_init ''f'' ''wf'' ''run1'' False 3)))
     = Some {''a''}
   \<and> length ''a'' = 1"
  by code_simp

end
